theory Spec2Isabelle
  imports Main
begin

section \<open>JavaScript primitives used by the hooks and utilities\<close>

text \<open>
  Strings are lists of code units; the model keeps to the code units below 256, so a
  JavaScript string is a \<^typ>\<open>string\<close>. Numbers that index strings and arrays are
  integers (\<^typ>\<open>int\<close>): the code passes them to \<open>slice\<close>, which accepts any
  integer, negative ones counting from the end. The model's integers are unbounded and
  its sums exact; JavaScript's numbers are doubles, whose sums are exact only while
  operands and result stay below \<open>2^53\<close> in magnitude, so the model stands for the code
  on positions and lengths of that range.
\<close>

definition rel_index :: "int \<Rightarrow> nat \<Rightarrow> nat" where
  \<comment> \<open>How \<open>slice\<close> resolves a relative index against a length: a negative index counts
      from the end, and the result is clamped into \<open>[0, len]\<close>.\<close>
  "rel_index k len = (if k < 0 then nat (max (int len + k) 0) else min (nat k) len)"

definition slice :: "'a list \<Rightarrow> int \<Rightarrow> int \<Rightarrow> 'a list" where
  \<comment> \<open>\<open>xs.slice(start, end)\<close> of arrays and of strings.\<close>
  "slice xs start end =
     (let k = rel_index start (length xs); e = rel_index end (length xs)
      in take (e - k) (drop k xs))"

definition slice_from :: "'a list \<Rightarrow> int \<Rightarrow> 'a list" where
  \<comment> \<open>\<open>xs.slice(start)\<close>: the end defaults to the length.\<close>
  "slice_from xs start = drop (rel_index start (length xs)) xs"

section \<open>HistoryStore: the hook \<open>useUndoRedo\<close>\<close>

datatype action = SetAction | UndoAction | RedoAction

record options =
  maxHistory :: "int option"
  enableKeyboardShortcuts :: "bool option"
  onChange :: "(string \<Rightarrow> action \<Rightarrow> unit) option"

text \<open>
  The state of the hook: the three fields kept by \<open>useState\<close>, and the calls made so
  far to the change callback, oldest first (the observable effect of the hook).
\<close>

record history =
  hvalue :: string
  undoStack :: "string list"
  redoStack :: "string list"
  notified :: "(string \<times> action) list"

text \<open>
  The destructuring at the head of the hook,
  \<^verbatim>\<open>const { maxHistory = 50, enableKeyboardShortcuts = true, onChangeCallback = undefined } = options\<close>.
  The options have no field \<open>onChangeCallback\<close> (the callback's field is \<open>onChange\<close>),
  so the third binding always takes its default.
\<close>

definition maxHistory_of :: "options \<Rightarrow> int" where
  "maxHistory_of opts = (case maxHistory opts of None \<Rightarrow> 50 | Some m \<Rightarrow> m)"

definition onChangeCallback :: "options \<Rightarrow> (string \<Rightarrow> action \<Rightarrow> unit) option" where
  "onChangeCallback opts = None"

definition call_optional ::
  "(string \<Rightarrow> action \<Rightarrow> unit) option \<Rightarrow> string \<Rightarrow> action \<Rightarrow> history \<Rightarrow> history" where
  \<comment> \<open>\<open>cb?.(v, a)\<close>: the call happens only when the callback is defined.\<close>
  "call_optional cb v a s =
     (case cb of None \<Rightarrow> s | Some f \<Rightarrow> s\<lparr>notified := notified s @ [(v, a)]\<rparr>)"

definition useUndoRedo :: "string \<Rightarrow> history" where
  "useUndoRedo initialValue =
     \<lparr>hvalue = initialValue, undoStack = [], redoStack = [], notified = []\<rparr>"

definition setValue :: "options \<Rightarrow> string \<Rightarrow> history \<Rightarrow> history" where
  "setValue opts newValue prevState =
     call_optional (onChangeCallback opts) newValue SetAction
       (prevState\<lparr>
          undoStack :=
            (if hvalue prevState \<noteq> newValue \<and> hvalue prevState \<noteq> ''''
             then slice_from (undoStack prevState @ [hvalue prevState]) (- maxHistory_of opts)
             else undoStack prevState),
          redoStack := [],
          hvalue := newValue\<rparr>)"

definition undo :: "options \<Rightarrow> history \<Rightarrow> history" where
  "undo opts prevState =
     (if length (undoStack prevState) = 0 then prevState
      else
        let newUndoStack = butlast (undoStack prevState);
            previousValue = last (undoStack prevState)
        in call_optional (onChangeCallback opts) previousValue UndoAction
             (prevState\<lparr>
                hvalue := previousValue,
                undoStack := newUndoStack,
                redoStack := slice (hvalue prevState # redoStack prevState) 0 (maxHistory_of opts)\<rparr>))"

definition redo :: "options \<Rightarrow> history \<Rightarrow> history" where
  "redo opts prevState =
     (if length (redoStack prevState) = 0 then prevState
      else
        let newRedoStack = tl (redoStack prevState);
            nextValue = hd (redoStack prevState)
        in call_optional (onChangeCallback opts) nextValue RedoAction
             (prevState\<lparr>
                hvalue := nextValue,
                undoStack := slice_from (undoStack prevState @ [hvalue prevState]) (- maxHistory_of opts),
                redoStack := newRedoStack\<rparr>))"

definition clearHistory :: "history \<Rightarrow> history" where
  "clearHistory prevState = prevState\<lparr>undoStack := [], redoStack := []\<rparr>"

definition undoCount :: "history \<Rightarrow> nat" where
  "undoCount s = length (undoStack s)"

definition redoCount :: "history \<Rightarrow> nat" where
  "redoCount s = length (redoStack s)"

text \<open>The calls a client can make, and a run of them from a state.\<close>

datatype command = SetValue string | UndoCmd | RedoCmd | ClearHistory

fun exec :: "options \<Rightarrow> command \<Rightarrow> history \<Rightarrow> history" where
  "exec opts (SetValue v) s = setValue opts v s"
| "exec opts UndoCmd s = undo opts s"
| "exec opts RedoCmd s = redo opts s"
| "exec opts ClearHistory s = clearHistory s"

fun run :: "options \<Rightarrow> command list \<Rightarrow> history \<Rightarrow> history" where
  "run opts [] s = s"
| "run opts (c # cs) s = run opts cs (exec opts c s)"

definition default_options :: options where
  "default_options = \<lparr>maxHistory = None, enableKeyboardShortcuts = None, onChange = None\<rparr>"

text \<open>
  What a run of \<open>setValue\<close> calls could observe: the value held just before the
  \<open>k\<close>-th call (counting from 0), whether that call recorded an undo point (the guard
  of \<open>setValue\<close> on the value it replaces), and the calls that did, in order.
\<close>

definition value_before :: "options \<Rightarrow> string \<Rightarrow> string list \<Rightarrow> nat \<Rightarrow> string" where
  "value_before opts v0 vs k = hvalue (run opts (map SetValue (take k vs)) (useUndoRedo v0))"

definition recorded :: "options \<Rightarrow> string \<Rightarrow> string list \<Rightarrow> nat \<Rightarrow> bool" where
  "recorded opts v0 vs k =
     (value_before opts v0 vs k \<noteq> vs ! k \<and> value_before opts v0 vs k \<noteq> '''')"

definition recorded_calls :: "options \<Rightarrow> string \<Rightarrow> string list \<Rightarrow> nat list" where
  "recorded_calls opts v0 vs = filter (recorded opts v0 vs) [0..<length vs]"

section \<open>String utilities: \<open>utils/expression-editor.ts\<close>\<close>

subsection \<open>White space and trimming\<close>

definition is_space :: "char \<Rightarrow> bool" where
  \<comment> \<open>The white space of \<open>\s\<close> and of \<open>trim\<close>, among the code units below 256: tab, line
      feed, vertical tab, form feed, carriage return, space and no-break space.\<close>
  "is_space c =
     (c = CHR 0x09 \<or> c = CHR 0x0A \<or> c = CHR 0x0B \<or> c = CHR 0x0C \<or> c = CHR 0x0D \<or>
      c = CHR '' '' \<or> c = CHR 0xA0)"

definition trimStart :: "string \<Rightarrow> string" where
  "trimStart s = dropWhile is_space s"

definition trimEnd :: "string \<Rightarrow> string" where
  "trimEnd s = rev (dropWhile is_space (rev s))"

definition trim :: "string \<Rightarrow> string" where
  "trim s = trimEnd (trimStart s)"

definition char_at :: "string \<Rightarrow> int \<Rightarrow> char option" where
  \<comment> \<open>\<open>s[i]\<close>: \<open>undefined\<close> (\<open>None\<close>) outside the string.\<close>
  "char_at s i = (if 0 \<le> i \<and> i < int (length s) then Some (s ! nat i) else None)"

subsection \<open>\<open>validateExpression\<close>\<close>

text \<open>
  One counting loop of \<open>validateExpression\<close>: \<open>None\<close> when the loop returns \<open>false\<close>
  (the count went negative), the final count otherwise.
\<close>

fun count_delimiters :: "char \<Rightarrow> char \<Rightarrow> string \<Rightarrow> int \<Rightarrow> int option" where
  "count_delimiters opening closing [] n = Some n"
| "count_delimiters opening closing (c # cs) n =
     (let n1 = (if c = opening then n + 1 else n);
          n2 = (if c = closing then n1 - 1 else n1)
      in if n2 < 0 then None else count_delimiters opening closing cs n2)"

definition validateExpression :: "string \<Rightarrow> bool" where
  "validateExpression expression =
     (if expression = [] \<or> trim expression = [] then True
      else case count_delimiters CHR ''('' CHR '')'' expression 0 of
        None \<Rightarrow> False
      | Some parenCount \<Rightarrow>
          if parenCount \<noteq> 0 then False
          else case count_delimiters CHR ''['' CHR '']'' expression 0 of
            None \<Rightarrow> False
          | Some bracketCount \<Rightarrow> if bracketCount \<noteq> 0 then False else True)"

subsection \<open>\<open>insertOperator\<close>\<close>

record edit =
  expression :: string
  cursorPos :: int

definition is_arith_operator :: "char \<Rightarrow> bool" where
  \<comment> \<open>The character class \<open>[+\-*/]\<close>.\<close>
  "is_arith_operator c = (c = CHR ''+'' \<or> c = CHR ''-'' \<or> c = CHR ''*'' \<or> c = CHR ''/'')"

definition ends_with_operator :: "string \<Rightarrow> bool" where
  \<comment> \<open>\<open>/[+\-*/]$/.test(s)\<close>: the last character is one of the class.\<close>
  "ends_with_operator s = (case rev s of [] \<Rightarrow> False | c # _ \<Rightarrow> is_arith_operator c)"

definition insertOperator :: "string \<Rightarrow> string \<Rightarrow> int \<Rightarrow> edit" where
  "insertOperator expr operator pos =
     (let beforeCursor = trimEnd (slice expr 0 pos);
          afterCursor = trimStart (slice_from expr pos)
      in if length beforeCursor > 0 \<and> ends_with_operator beforeCursor then
           let newBefore = slice beforeCursor 0 (- 1);
               newExpression = newBefore @ '' '' @ operator @ '' '' @ afterCursor
           in \<lparr>expression = newExpression,
               cursorPos = int (length newBefore) + int (length operator) + 2\<rparr>
         else
           let newExpression = beforeCursor @ '' '' @ operator @ '' '' @ afterCursor
           in \<lparr>expression = newExpression,
               cursorPos = int (length beforeCursor) + int (length operator) + 2\<rparr>)"

subsection \<open>\<open>isOperator\<close>\<close>

definition is_operator_char :: "char \<Rightarrow> bool" where
  \<comment> \<open>The character class \<open>[+\-*/^%]\<close>.\<close>
  "is_operator_char c =
     (c = CHR ''+'' \<or> c = CHR ''-'' \<or> c = CHR ''*'' \<or> c = CHR ''/'' \<or>
      c = CHR ''^'' \<or> c = CHR ''%'')"

definition isOperator :: "string \<Rightarrow> bool" where
  \<comment> \<open>\<open>/[+\-*/^%]/.test(char)\<close>: some character of the argument is in the class.\<close>
  "isOperator char = list_ex is_operator_char char"

subsection \<open>\<open>formatExpression\<close>\<close>

text \<open>
  The four global replacements of \<open>formatExpression\<close>, each a left-to-right scan that
  replaces the leftmost match and goes on after it, as \<open>String.prototype.replace\<close> with
  a \<open>g\<close> regular expression does.
\<close>

function collapse_spaces :: "string \<Rightarrow> string" where
  \<comment> \<open>\<open>.replace(/\s+/g, ' ')\<close>\<close>
  "collapse_spaces [] = []"
| "collapse_spaces (c # cs) =
     (if is_space c then CHR '' '' # collapse_spaces (dropWhile is_space cs)
      else c # collapse_spaces cs)"
  by pat_completeness auto
termination
  by (relation "measure length") (auto simp: le_imp_less_Suc length_dropWhile_le)

function strip_after_open :: "string \<Rightarrow> string" where
  \<comment> \<open>\<open>.replace(/\(\s+/g, '(')\<close>\<close>
  "strip_after_open [] = []"
| "strip_after_open (c # cs) =
     (if c = CHR ''('' then CHR ''('' # strip_after_open (dropWhile is_space cs)
      else c # strip_after_open cs)"
  by pat_completeness auto
termination
  by (relation "measure length") (auto simp: le_imp_less_Suc length_dropWhile_le)

function strip_before_close :: "string \<Rightarrow> string" where
  \<comment> \<open>\<open>.replace(/\s+\)/g, ')')\<close>: a match starts at a white-space character whose run of
      white space is followed by \<open>)\<close>.\<close>
  "strip_before_close [] = []"
| "strip_before_close (c # cs) =
     (if is_space c then
        (case dropWhile is_space cs of
           [] \<Rightarrow> c # strip_before_close cs
         | d # ds \<Rightarrow>
             if d = CHR '')'' then CHR '')'' # strip_before_close ds
             else c # strip_before_close cs)
      else c # strip_before_close cs)"
  by pat_completeness auto
termination
proof (relation "measure length")
  fix c :: char and cs d ds
  assume "dropWhile is_space cs = d # ds"
  then have "length (d # ds) \<le> length cs"
    using length_dropWhile_le[of is_space cs] by simp
  then show "(ds, c # cs) \<in> measure length" by simp
qed auto

function space_operators :: "string \<Rightarrow> string" where
  \<comment> \<open>\<open>.replace(/\s*([+\-*/])\s*/g, ' $1 ')\<close>: a match starts where the (possibly empty)
      run of white space is followed by an operator, and takes the white space after it.\<close>
  "space_operators [] = []"
| "space_operators (c # cs) =
     (case dropWhile is_space (c # cs) of
        [] \<Rightarrow> c # space_operators cs
      | d # ds \<Rightarrow>
          if is_arith_operator d
          then CHR '' '' # d # CHR '' '' # space_operators (dropWhile is_space ds)
          else c # space_operators cs)"
  by pat_completeness auto
termination
proof (relation "measure length")
  fix c :: char and cs d ds
  assume "dropWhile is_space (c # cs) = d # ds"
  then have "length (d # ds) \<le> length (c # cs)"
    using length_dropWhile_le[of is_space "c # cs"] by simp
  moreover have "length (dropWhile is_space ds) \<le> length ds"
    by (rule length_dropWhile_le)
  ultimately show "(dropWhile is_space ds, c # cs) \<in> measure length" by simp
qed auto

definition formatExpression :: "string \<Rightarrow> string" where
  "formatExpression expr =
     trim (space_operators (strip_before_close (strip_after_open (collapse_spaces expr))))"

subsection \<open>\<open>findMatchingParen\<close> and \<open>findMatchingOpenParen\<close>\<close>

function find_close_loop :: "string \<Rightarrow> nat \<Rightarrow> int \<Rightarrow> int" where
  \<comment> \<open>The loop of \<open>findMatchingParen\<close> from index \<open>i\<close> with the depth so far; \<open>-1\<close> when
      it runs off the end.\<close>
  "find_close_loop expr i depth =
     (if i < length expr then
        let d1 = (if expr ! i = CHR ''('' then depth + 1 else depth);
            d2 = (if expr ! i = CHR '')'' then d1 - 1 else d1)
        in if d2 = 0 then int i else find_close_loop expr (i + 1) d2
      else - 1)"
  by pat_completeness auto
termination
  by (relation "measure (\<lambda>(expr, i, depth). length expr - i)") auto

declare find_close_loop.simps [simp del]

definition findMatchingParen :: "string \<Rightarrow> int \<Rightarrow> int" where
  "findMatchingParen expr openPos =
     (if char_at expr openPos \<noteq> Some CHR ''('' then - 1
      else find_close_loop expr (nat (openPos + 1)) 1)"

function find_open_loop :: "string \<Rightarrow> int \<Rightarrow> int \<Rightarrow> int" where
  \<comment> \<open>The loop of \<open>findMatchingOpenParen\<close>, going down from index \<open>i\<close>.\<close>
  "find_open_loop expr i depth =
     (if i \<ge> 0 then
        let d1 = (if char_at expr i = Some CHR '')'' then depth + 1 else depth);
            d2 = (if char_at expr i = Some CHR ''('' then d1 - 1 else d1)
        in if d2 = 0 then i else find_open_loop expr (i - 1) d2
      else - 1)"
  by pat_completeness auto
termination
  by (relation "measure (\<lambda>(expr, i, depth). nat (i + 1))") auto

declare find_open_loop.simps [simp del]

definition findMatchingOpenParen :: "string \<Rightarrow> int \<Rightarrow> int" where
  "findMatchingOpenParen expr closePos =
     (if char_at expr closePos \<noteq> Some CHR '')'' then - 1
      else find_open_loop expr (closePos - 1) 1)"

text \<open>
  For reasoning about the two searches: what a character adds to the depth of the forward
  search, and the sum of that over the first \<open>n\<close> characters of a string.
\<close>

definition paren_delta :: "char \<Rightarrow> int" where
  "paren_delta c = (if c = CHR ''('' then 1 else if c = CHR '')'' then - 1 else 0)"

definition prefix_balance :: "string \<Rightarrow> nat \<Rightarrow> int" where
  "prefix_balance s n = sum_list (map paren_delta (take n s))"

text \<open>
  For reasoning about \<open>formatExpression\<close>: once white space is collapsed, a string is a
  list of tokens, each a character that is not white space with a flag telling whether a
  space stands before it, and a flag for a space at the end. On that form every
  replacement changes flags only, looking at the character and at the one before it.
\<close>

type_synonym token = "bool \<times> char"

fun tokens_text :: "token list \<Rightarrow> bool \<Rightarrow> string" where
  "tokens_text [] tr = (if tr then '' '' else [])"
| "tokens_text ((b, c) # ts) tr = (if b then '' '' else []) @ c # tokens_text ts tr"

fun tokens_ok :: "token list \<Rightarrow> bool" where
  "tokens_ok [] = True"
| "tokens_ok ((b, c) # ts) = (\<not> is_space c \<and> tokens_ok ts)"

fun map_flags :: "(char option \<Rightarrow> bool \<Rightarrow> char \<Rightarrow> bool) \<Rightarrow> char option \<Rightarrow> token list \<Rightarrow> token list" where
  "map_flags g p [] = []"
| "map_flags g p ((b, c) # ts) = (g p b c, c) # map_flags g (Some c) ts"

definition after_operator :: "char option \<Rightarrow> bool" where
  "after_operator p = (case p of None \<Rightarrow> False | Some q \<Rightarrow> is_arith_operator q)"

definition gap_before :: "char option \<Rightarrow> bool \<Rightarrow> char \<Rightarrow> string" where
  "gap_before p b c =
     (if after_operator p then '' '' else []) @
     (if is_arith_operator c then '' '' else if b \<and> \<not> after_operator p then '' '' else [])"

fun spaced_text :: "char option \<Rightarrow> token list \<Rightarrow> bool \<Rightarrow> string" where
  "spaced_text p [] tr = (if after_operator p then '' '' else if tr then '' '' else [])"
| "spaced_text p ((b, c) # ts) tr = gap_before p b c @ c # spaced_text (Some c) ts tr"

fun formatted_text :: "char option \<Rightarrow> token list \<Rightarrow> string" where
  "formatted_text p [] = []"
| "formatted_text p ((b, c) # ts) = (if p = None then [] else gap_before p b c) @ c # formatted_text (Some c) ts"

definition flag_after_open :: "char option \<Rightarrow> bool \<Rightarrow> char \<Rightarrow> bool" where
  "flag_after_open p b c = (b \<and> p \<noteq> Some CHR ''('')"

definition flag_before_close :: "char option \<Rightarrow> bool \<Rightarrow> char \<Rightarrow> bool" where
  "flag_before_close p b c = (b \<and> c \<noteq> CHR '')'')"

definition flag_in_output :: "char option \<Rightarrow> bool \<Rightarrow> char \<Rightarrow> bool" where
  "flag_in_output p b c = (p \<noteq> None \<and> gap_before p b c \<noteq> [])"

section \<open>ExpressionEditorController: the hook \<open>useExpressionEditor\<close>\<close>

record editor_options =
  initialExpression :: "string option"
  onExpressionChange :: "(string \<Rightarrow> unit) option"
  onCopy :: "(string \<Rightarrow> unit) option"
  onPaste :: "(string \<Rightarrow> unit) option"
  validator :: "(string \<Rightarrow> bool) option"
  undoRedoOptions :: options

text \<open>
  The state of the controller: the history hook it owns, its own \<open>useState\<close> cells, and
  the calls made so far to \<open>onExpressionChange\<close>. Each call of an action is one step
  from the state of the last render; the clock's reading (\<open>Date.now()\<close>) is an argument.
  The cursor arithmetic of \<open>insertText\<close> and \<open>replaceText\<close> is integer addition, which
  is the code's addition of doubles as long as the position and the sum stay below
  \<open>2^53\<close> in magnitude.
\<close>

record editor =
  undoRedo :: history
  cursorPosition :: int
  selectionStart :: int
  selectionEnd :: int
  isValid :: bool
  lastModifiedTime :: int
  expressionChanges :: "string list"

definition editor_expression :: "editor \<Rightarrow> string" where
  \<comment> \<open>The field \<open>expression: undoRedo.value\<close> of the hook's result.\<close>
  "editor_expression e = hvalue (undoRedo e)"

definition initialExpression_of :: "editor_options \<Rightarrow> string" where
  "initialExpression_of eo = (case initialExpression eo of None \<Rightarrow> '''' | Some s \<Rightarrow> s)"

definition useExpressionEditor :: "editor_options \<Rightarrow> int \<Rightarrow> editor" where
  "useExpressionEditor eo now =
     \<lparr>undoRedo = useUndoRedo (initialExpression_of eo),
      cursorPosition = int (length (initialExpression_of eo)),
      selectionStart = 0,
      selectionEnd = 0,
      isValid = True,
      lastModifiedTime = now,
      expressionChanges = []\<rparr>"

definition setExpression :: "editor_options \<Rightarrow> int \<Rightarrow> string \<Rightarrow> editor \<Rightarrow> editor" where
  "setExpression eo now expr e =
     (let valid = (case validator eo of None \<Rightarrow> True | Some v \<Rightarrow> v expr);
          e1 = e\<lparr>isValid := valid\<rparr>
      in if valid then
           e1\<lparr>undoRedo := setValue (undoRedoOptions eo) expr (undoRedo e1),
              cursorPosition := int (length expr),
              lastModifiedTime := now,
              expressionChanges :=
                (case onExpressionChange eo of
                   None \<Rightarrow> expressionChanges e1
                 | Some f \<Rightarrow> expressionChanges e1 @ [expr])\<rparr>
         else e1)"

definition insertText :: "editor_options \<Rightarrow> int \<Rightarrow> string \<Rightarrow> editor \<Rightarrow> editor" where
  "insertText eo now text e =
     (let newExpression =
            slice (editor_expression e) 0 (cursorPosition e) @ text @
            slice_from (editor_expression e) (cursorPosition e)
      in (setExpression eo now newExpression e)
           \<lparr>cursorPosition := cursorPosition e + int (length text)\<rparr>)"

definition deleteText :: "editor_options \<Rightarrow> int \<Rightarrow> int \<Rightarrow> int \<Rightarrow> editor \<Rightarrow> editor" where
  "deleteText eo now start end e =
     (let newExpression =
            slice (editor_expression e) 0 start @ slice_from (editor_expression e) end
      in (setExpression eo now newExpression e)\<lparr>cursorPosition := max 0 start\<rparr>)"

definition replaceText ::
  "editor_options \<Rightarrow> int \<Rightarrow> int \<Rightarrow> int \<Rightarrow> string \<Rightarrow> editor \<Rightarrow> editor" where
  "replaceText eo now start end replacement e =
     (let newExpression =
            slice (editor_expression e) 0 start @ replacement @
            slice_from (editor_expression e) end
      in (setExpression eo now newExpression e)
           \<lparr>cursorPosition := start + int (length replacement)\<rparr>)"

definition clear :: "editor_options \<Rightarrow> int \<Rightarrow> editor \<Rightarrow> editor" where
  "clear eo now e = (setExpression eo now '''' e)\<lparr>cursorPosition := 0\<rparr>"

definition setCursorPosition :: "int \<Rightarrow> editor \<Rightarrow> editor" where
  \<comment> \<open>The setter the hook returns, which clamps into the expression.\<close>
  "setCursorPosition pos e =
     e\<lparr>cursorPosition := max 0 (min pos (int (length (editor_expression e))))\<rparr>"

definition default_editor_options :: editor_options where
  "default_editor_options =
     \<lparr>initialExpression = None, onExpressionChange = None, onCopy = None, onPaste = None,
      validator = None, undoRedoOptions = default_options\<rparr>"

section \<open>Properties of the HistoryStore\<close>

subsection \<open>Basic facts\<close>

lemma call_optional_None [simp]: "call_optional None v a s = s"
  by (simp add: call_optional_def)

lemma slice_from_neg_length: "0 < m \<Longrightarrow> length (slice_from xs (- m)) \<le> nat m"
  by (auto simp: slice_from_def rel_index_def)

lemma slice_from_suffix: "\<exists>pre. xs = pre @ slice_from xs k"
  unfolding slice_from_def by (metis append_take_drop_id)

lemma slice_zero_pos: "0 < m \<Longrightarrow> slice (x # xs) 0 m = x # take (nat m - 1) xs"
  by (cases "nat m") (auto simp: slice_def rel_index_def Let_def min_def)

lemma hvalue_setValue [simp]: "hvalue (setValue opts v s) = v"
  by (simp add: setValue_def onChangeCallback_def)

lemma redoStack_setValue [simp]: "redoStack (setValue opts v s) = []"
  by (simp add: setValue_def onChangeCallback_def)

lemma undoStack_setValue:
  "undoStack (setValue opts v s) =
     (if hvalue s \<noteq> v \<and> hvalue s \<noteq> []
      then slice_from (undoStack s @ [hvalue s]) (- maxHistory_of opts)
      else undoStack s)"
  by (simp add: setValue_def onChangeCallback_def)

lemma run_append: "run opts (cs @ ds) s = run opts ds (run opts cs s)"
  by (induction cs arbitrary: s) simp_all

lemma notified_exec: "notified (exec opts c s) = notified s"
  by (cases c)
     (simp_all add: setValue_def undo_def redo_def clearHistory_def onChangeCallback_def Let_def)

lemma notified_run: "notified (run opts cs s) = notified s"
  by (induction cs arbitrary: s) (simp_all add: notified_exec)

subsection \<open>The cap on the undo stack, for a positive \<open>maxHistory\<close>\<close>

lemma undoStack_exec_bounded:
  assumes "0 < maxHistory_of opts" "length (undoStack s) \<le> nat (maxHistory_of opts)"
  shows "length (undoStack (exec opts c s)) \<le> nat (maxHistory_of opts)"
proof (cases c)
  case (SetValue v)
  then show ?thesis
    using assms(2) slice_from_neg_length[OF assms(1), of "undoStack s @ [hvalue s]"]
    by (simp only: exec.simps undoStack_setValue split: if_split) blast
next
  case UndoCmd
  have "length (butlast (undoStack s)) \<le> length (undoStack s)" by simp
  with UndoCmd show ?thesis using assms(2)
    by (simp only: exec.simps undo_def onChangeCallback_def Let_def call_optional_None split: if_split)
       (auto simp del: length_butlast nat_le_iff)
next
  case RedoCmd
  then show ?thesis
    using assms(2) slice_from_neg_length[OF assms(1), of "undoStack s @ [hvalue s]"]
    by (auto simp add: redo_def onChangeCallback_def Let_def simp del: nat_le_iff)
next
  case ClearHistory
  then show ?thesis by (simp add: clearHistory_def)
qed

lemma undoStack_run_bounded:
  "0 < maxHistory_of opts \<Longrightarrow> length (undoStack s) \<le> nat (maxHistory_of opts) \<Longrightarrow>
   length (undoStack (run opts cs s)) \<le> nat (maxHistory_of opts)"
  by (induction cs arbitrary: s) (simp_all add: undoStack_exec_bounded)

lemma undoStack_reachable_bounded:
  "0 < maxHistory_of opts \<Longrightarrow>
   length (undoStack (run opts cs (useUndoRedo v0))) \<le> nat (maxHistory_of opts)"
  by (rule undoStack_run_bounded) (simp_all add: useUndoRedo_def)

subsection \<open>The undo stack is the tail of the log of recorded edits\<close>

lemma value_before_snoc:
  "k \<le> length vs \<Longrightarrow> value_before opts v0 (vs @ [v]) k = value_before opts v0 vs k"
  by (simp add: value_before_def)

lemma recorded_snoc:
  "k < length vs \<Longrightarrow> recorded opts v0 (vs @ [v]) k = recorded opts v0 vs k"
  by (simp add: recorded_def value_before_snoc nth_append)

lemma recorded_calls_snoc:
  "recorded_calls opts v0 (vs @ [v]) =
     recorded_calls opts v0 vs @
       (if recorded opts v0 (vs @ [v]) (length vs) then [length vs] else [])"
proof -
  have "filter (recorded opts v0 (vs @ [v])) [0..<length vs] =
        filter (recorded opts v0 vs) [0..<length vs]"
    by (rule filter_cong) (simp_all add: recorded_snoc)
  then show ?thesis by (simp add: recorded_calls_def)
qed

lemma map_value_before_snoc:
  "map (value_before opts v0 (vs @ [v])) (recorded_calls opts v0 vs) =
   map (value_before opts v0 vs) (recorded_calls opts v0 vs)"
  by (rule map_cong) (simp_all add: recorded_calls_def value_before_snoc)

lemma undoStack_is_suffix_of_log:
  "\<exists>pre. map (value_before opts v0 vs) (recorded_calls opts v0 vs) =
          pre @ undoStack (run opts (map SetValue vs) (useUndoRedo v0))"
proof (induction vs rule: rev_induct)
  case Nil
  show ?case by (simp add: recorded_calls_def useUndoRedo_def)
next
  case (snoc v vs)
  let ?f = "run opts (map SetValue vs) (useUndoRedo v0)"
  let ?L = "map (value_before opts v0 vs) (recorded_calls opts v0 vs)"
  from snoc obtain pre where L: "?L = pre @ undoStack ?f" by blast
  have run: "run opts (map SetValue (vs @ [v])) (useUndoRedo v0) = setValue opts v ?f"
    by (simp add: run_append)
  have vb: "value_before opts v0 (vs @ [v]) (length vs) = hvalue ?f"
    by (simp add: value_before_def)
  show ?case
  proof (cases "hvalue ?f \<noteq> v \<and> hvalue ?f \<noteq> ''''")
    case True
    then have rec: "recorded opts v0 (vs @ [v]) (length vs)"
      by (simp add: recorded_def vb)
    obtain p where p: "undoStack ?f @ [hvalue ?f] =
        p @ slice_from (undoStack ?f @ [hvalue ?f]) (- maxHistory_of opts)"
      using slice_from_suffix by blast
    have "map (value_before opts v0 (vs @ [v])) (recorded_calls opts v0 (vs @ [v])) =
          ?L @ [hvalue ?f]"
      using rec by (simp add: recorded_calls_snoc map_value_before_snoc vb)
    also have "\<dots> = pre @ (undoStack ?f @ [hvalue ?f])" using L by simp
    also have "\<dots> = (pre @ p) @ slice_from (undoStack ?f @ [hvalue ?f]) (- maxHistory_of opts)"
      using p by simp
    finally have "map (value_before opts v0 (vs @ [v])) (recorded_calls opts v0 (vs @ [v])) =
        (pre @ p) @ slice_from (undoStack ?f @ [hvalue ?f]) (- maxHistory_of opts)" .
    moreover have "undoStack (setValue opts v ?f) =
        slice_from (undoStack ?f @ [hvalue ?f]) (- maxHistory_of opts)"
      using True by (simp add: undoStack_setValue)
    ultimately show ?thesis unfolding run by metis
  next
    case False
    then have rec: "\<not> recorded opts v0 (vs @ [v]) (length vs)"
      by (auto simp add: recorded_def vb)
    have "map (value_before opts v0 (vs @ [v])) (recorded_calls opts v0 (vs @ [v])) = ?L"
      using rec by (simp add: recorded_calls_snoc map_value_before_snoc)
    moreover have "undoStack (setValue opts v ?f) = undoStack ?f"
      using False by (auto simp add: undoStack_setValue)
    ultimately show ?thesis unfolding run using L by metis
  qed
qed

lemma undo_pops:
  "undoStack s \<noteq> [] \<Longrightarrow>
   undoStack (undo opts s) = butlast (undoStack s) \<and> hvalue (undo opts s) = last (undoStack s)"
  by (simp add: undo_def onChangeCallback_def Let_def)

lemma undo_funpow:
  "N \<le> length (undoStack s) \<Longrightarrow>
   undoStack ((undo opts ^^ N) s) = take (length (undoStack s) - N) (undoStack s) \<and>
   (1 \<le> N \<longrightarrow> hvalue ((undo opts ^^ N) s) = undoStack s ! (length (undoStack s) - N))"
proof (induction N)
  case 0
  show ?case by simp
next
  case (Suc N)
  let ?t = "(undo opts ^^ N) s"
  let ?us = "undoStack s"
  from Suc have st: "undoStack ?t = take (length ?us - N) ?us" by simp
  from Suc.prems have ne: "undoStack ?t \<noteq> []" by (auto simp add: st)
  have len: "length (undoStack ?t) = length ?us - N" by (simp add: st)
  have "undoStack (undo opts ?t) = take (length ?us - Suc N) ?us"
    using undo_pops[OF ne] by (simp add: st butlast_take)
  moreover have "hvalue (undo opts ?t) = ?us ! (length ?us - Suc N)"
  proof -
    have "hvalue (undo opts ?t) = last (take (length ?us - N) ?us)"
      using undo_pops[OF ne] by (simp add: st)
    also have "\<dots> = take (length ?us - N) ?us ! (length ?us - N - 1)"
      using ne len by (simp add: last_conv_nth st)
    also have "\<dots> = ?us ! (length ?us - Suc N)"
      using Suc.prems by simp
    finally show ?thesis .
  qed
  ultimately show ?case by simp
qed

lemma undo_reaches_recorded_value:
  assumes "1 \<le> N" "N \<le> undoCount (run opts (map SetValue vs) (useUndoRedo v0))"
  shows "N \<le> length (recorded_calls opts v0 vs) \<and>
         hvalue ((undo opts ^^ N) (run opts (map SetValue vs) (useUndoRedo v0))) =
           value_before opts v0 vs (rev (recorded_calls opts v0 vs) ! (N - 1))"
proof -
  let ?f = "run opts (map SetValue vs) (useUndoRedo v0)"
  let ?rc = "recorded_calls opts v0 vs"
  let ?L = "map (value_before opts v0 vs) ?rc"
  obtain pre where L: "?L = pre @ undoStack ?f" using undoStack_is_suffix_of_log by blast
  have N: "N \<le> length (undoStack ?f)" using assms(2) by (simp add: undoCount_def)
  have lenL: "length ?L = length pre + length (undoStack ?f)" by (simp only: L length_append)
  then have lenrc: "length ?rc = length pre + length (undoStack ?f)" by simp
  then have N': "N \<le> length ?rc" using N by simp
  have "hvalue ((undo opts ^^ N) ?f) = undoStack ?f ! (length (undoStack ?f) - N)"
    using undo_funpow[OF N] assms(1) by blast
  also have "\<dots> = (pre @ undoStack ?f) ! (length pre + (length (undoStack ?f) - N))"
    by (simp add: nth_append)
  also have "\<dots> = ?L ! (length ?rc - N)" using L lenrc N by simp
  also have "\<dots> = rev ?L ! (N - 1)"
    using N' assms(1) by (simp add: rev_nth)
  also have "\<dots> = value_before opts v0 vs (rev ?rc ! (N - 1))"
    using N' assms(1) by (simp add: rev_map)
  finally show ?thesis using N' by blast
qed

lemma length_slice_from_neg:
  "0 < m \<Longrightarrow> length (slice_from xs (- m)) = min (length xs) (nat m)"
  by (auto simp: slice_from_def rel_index_def)

lemma undoCount_setValues:
  assumes "0 < maxHistory_of opts"
  shows "length (undoStack (run opts (map SetValue vs) (useUndoRedo v0))) =
         min (length (recorded_calls opts v0 vs)) (nat (maxHistory_of opts))"
proof (induction vs rule: rev_induct)
  case Nil
  show ?case by (simp add: recorded_calls_def useUndoRedo_def)
next
  case (snoc v vs)
  let ?f = "run opts (map SetValue vs) (useUndoRedo v0)"
  have run: "run opts (map SetValue (vs @ [v])) (useUndoRedo v0) = setValue opts v ?f"
    by (simp add: run_append)
  have vb: "value_before opts v0 (vs @ [v]) (length vs) = hvalue ?f"
    by (simp add: value_before_def)
  show ?case
  proof (cases "hvalue ?f \<noteq> v \<and> hvalue ?f \<noteq> ''''")
    case True
    then have rec: "recorded opts v0 (vs @ [v]) (length vs)"
      by (simp add: recorded_def vb)
    have "length (undoStack (setValue opts v ?f)) =
          min (length (undoStack ?f) + 1) (nat (maxHistory_of opts))"
      using True length_slice_from_neg[OF assms, of "undoStack ?f @ [hvalue ?f]"]
      by (simp add: undoStack_setValue)
    moreover have "length (recorded_calls opts v0 (vs @ [v])) =
        length (recorded_calls opts v0 vs) + 1"
      using rec by (simp add: recorded_calls_snoc)
    ultimately show ?thesis unfolding run using snoc by (simp add: min_def)
  next
    case False
    then have rec: "\<not> recorded opts v0 (vs @ [v]) (length vs)"
      by (auto simp add: recorded_def vb)
    have "undoStack (setValue opts v ?f) = undoStack ?f"
      using False by (auto simp add: undoStack_setValue)
    moreover have "length (recorded_calls opts v0 (vs @ [v])) =
        length (recorded_calls opts v0 vs)"
      using rec by (simp add: recorded_calls_snoc)
    ultimately show ?thesis unfolding run using snoc by simp
  qed
qed

lemma undo_within_cap:
  assumes "1 \<le> N"
    and "int N \<le> min (int (length (recorded_calls opts v0 vs))) (maxHistory_of opts)"
  shows "hvalue ((undo opts ^^ N) (run opts (map SetValue vs) (useUndoRedo v0))) =
           value_before opts v0 vs (rev (recorded_calls opts v0 vs) ! (N - 1))"
proof -
  have m: "0 < maxHistory_of opts" using assms by simp
  have "N \<le> min (length (recorded_calls opts v0 vs)) (nat (maxHistory_of opts))"
    using assms(2) by (simp add: min_def split: if_splits) linarith+
  then have "N \<le> undoCount (run opts (map SetValue vs) (useUndoRedo v0))"
    by (simp only: undoCount_def undoCount_setValues[OF m])
  from undo_reaches_recorded_value[OF assms(1) this] show ?thesis by blast
qed

lemma scenario_initial_modified:
  "hvalue (setValue default_options ''modified'' (useUndoRedo ''initial'')) = ''modified'' \<and>
   undoCount (setValue default_options ''modified'' (useUndoRedo ''initial'')) = 1 \<and>
   hvalue (undo default_options (setValue default_options ''modified'' (useUndoRedo ''initial''))) = ''initial'' \<and>
   redoCount (undo default_options (setValue default_options ''modified'' (useUndoRedo ''initial''))) = 1 \<and>
   hvalue (redo default_options (undo default_options
     (setValue default_options ''modified'' (useUndoRedo ''initial'')))) = ''modified'' \<and>
   redoCount (redo default_options (undo default_options
     (setValue default_options ''modified'' (useUndoRedo ''initial'')))) = 0"
  by (simp add: maxHistory_of_def default_options_def useUndoRedo_def setValue_def undo_def
      redo_def onChangeCallback_def Let_def slice_def slice_from_def rel_index_def
      undoCount_def redoCount_def)

subsection \<open>Claims about the HistoryStore\<close>

text \<open>
  C2, as stated: after any sequence of \<open>setValue\<close> calls on a store created with an
  initial value, \<open>N\<close> calls of \<open>undo\<close>, with \<open>N\<close> no larger than the number of recorded
  edits, leave as current value the value observed before the corresponding
  \<open>setValue\<close>. The recorded edits are the \<open>setValue\<close> calls that pushed an undo point
  (the value they replace is not empty and differs from the new one). It fails when the
  cap has dropped the oldest undo points: with \<open>maxHistory\<close> 3, the edits \<open>1\<close>, \<open>2\<close>, \<open>3\<close>,
  \<open>4\<close> from \<open>initial\<close> are four recorded edits, and four undos give \<open>1\<close>, not
  \<open>initial\<close>, the value before the fourth latest of them.
\<close>

theorem undo_past_cap_misses_value_before_setValue:
  "length (recorded_calls (default_options\<lparr>maxHistory := Some 3\<rparr>) ''initial''
      [''1'', ''2'', ''3'', ''4'']) = 4 \<and>
   hvalue ((undo (default_options\<lparr>maxHistory := Some 3\<rparr>) ^^ 4)
      (run (default_options\<lparr>maxHistory := Some 3\<rparr>)
         (map SetValue [''1'', ''2'', ''3'', ''4'']) (useUndoRedo ''initial''))) = ''1'' \<and>
   value_before (default_options\<lparr>maxHistory := Some 3\<rparr>) ''initial'' [''1'', ''2'', ''3'', ''4'']
      (rev (recorded_calls (default_options\<lparr>maxHistory := Some 3\<rparr>) ''initial''
         [''1'', ''2'', ''3'', ''4'']) ! (4 - 1)) = ''initial''"
  by code_simp

text \<open>
  C2, amended: after any sequence of \<open>setValue\<close> calls on a store created with an
  initial value, \<open>N\<close> calls of \<open>undo\<close>, with \<open>N\<close> at least 1 and no larger than the number
  of recorded edits and no larger than \<open>maxHistory\<close>, leave as current value the value
  that was observed just before the corresponding \<open>setValue\<close>: the \<open>N\<close>-th latest call
  that recorded an undo point. In particular, from the initial value \<open>initial\<close>,
  \<open>setValue('modified')\<close> gives value \<open>modified\<close> and \<open>undoCount\<close> 1, then \<open>undo()\<close>
  gives value \<open>initial\<close> and \<open>redoCount\<close> 1, then \<open>redo()\<close> gives value \<open>modified\<close>
  and \<open>redoCount\<close> 0.
\<close>

theorem undo_restores_value_before_recorded_setValue:
  "(1 \<le> N \<and> int N \<le> min (int (length (recorded_calls opts v0 vs))) (maxHistory_of opts) \<longrightarrow>
      hvalue ((undo opts ^^ N) (run opts (map SetValue vs) (useUndoRedo v0))) =
        value_before opts v0 vs (rev (recorded_calls opts v0 vs) ! (N - 1))) \<and>
   hvalue (setValue default_options ''modified'' (useUndoRedo ''initial'')) = ''modified'' \<and>
   undoCount (setValue default_options ''modified'' (useUndoRedo ''initial'')) = 1 \<and>
   hvalue (undo default_options (setValue default_options ''modified'' (useUndoRedo ''initial''))) = ''initial'' \<and>
   redoCount (undo default_options (setValue default_options ''modified'' (useUndoRedo ''initial''))) = 1 \<and>
   hvalue (redo default_options (undo default_options
     (setValue default_options ''modified'' (useUndoRedo ''initial'')))) = ''modified'' \<and>
   redoCount (redo default_options (undo default_options
     (setValue default_options ''modified'' (useUndoRedo ''initial'')))) = 0"
  using undo_within_cap[of N opts v0 vs] scenario_initial_modified by blast

text \<open>
  A run of the general part of C2: with \<open>maxHistory\<close> 3, the four edits from \<open>initial\<close>
  are four recorded edits; three undos give \<open>1\<close>, the value before the second call.
\<close>

theorem undo_restores_value_before_recorded_setValue_witness:
  "(1::nat) \<le> 3 \<and>
   int 3 \<le> min (int (length (recorded_calls (default_options\<lparr>maxHistory := Some 3\<rparr>) ''initial''
                  [''1'', ''2'', ''3'', ''4''])))
              (maxHistory_of (default_options\<lparr>maxHistory := Some 3\<rparr>)) \<and>
   hvalue ((undo (default_options\<lparr>maxHistory := Some 3\<rparr>) ^^ 3)
          (run (default_options\<lparr>maxHistory := Some 3\<rparr>)
             (map SetValue [''1'', ''2'', ''3'', ''4'']) (useUndoRedo ''initial''))) =
     value_before (default_options\<lparr>maxHistory := Some 3\<rparr>) ''initial'' [''1'', ''2'', ''3'', ''4'']
       (rev (recorded_calls (default_options\<lparr>maxHistory := Some 3\<rparr>) ''initial''
          [''1'', ''2'', ''3'', ''4'']) ! (3 - 1)) \<and>
   rev (recorded_calls (default_options\<lparr>maxHistory := Some 3\<rparr>) ''initial''
          [''1'', ''2'', ''3'', ''4'']) ! (3 - 1) = 1 \<and>
   value_before (default_options\<lparr>maxHistory := Some 3\<rparr>) ''initial'' [''1'', ''2'', ''3'', ''4''] 1 = ''1''"
proof -
  let ?o = "default_options\<lparr>maxHistory := Some 3\<rparr>"
  let ?vs = "[''1'', ''2'', ''3'', ''4'']"
  have h: "(1::nat) \<le> 3 \<and>
      int 3 \<le> min (int (length (recorded_calls ?o ''initial'' ?vs))) (maxHistory_of ?o)"
    by code_simp
  have r: "rev (recorded_calls ?o ''initial'' ?vs) ! (3 - 1) = 1"
    by code_simp
  have v: "value_before ?o ''initial'' ?vs 1 = ''1''"
    by code_simp
  from undo_restores_value_before_recorded_setValue[of 3 ?o "''initial''" ?vs] h r v
  show ?thesis by blast
qed

text \<open>
  C3: a change callback supplied in the options (\<open>onChange\<close>) should fire with
  \<open>(value, action)\<close> after each committed mutation. The hook reads the callback from a
  field the options do not have, so no call is ever made: after \<open>setValue\<close>, \<open>undo\<close>
  and \<open>redo\<close>, each of which changes the value, the callback has not been called.
\<close>

theorem supplied_onChange_is_never_called:
  "notified (run (default_options\<lparr>onChange := Some f\<rparr>)
      [SetValue ''b'', UndoCmd, RedoCmd] (useUndoRedo ''a'')) = [] \<and>
   hvalue (run (default_options\<lparr>onChange := Some f\<rparr>) [SetValue ''b''] (useUndoRedo ''a'')) = ''b'' \<and>
   hvalue (run (default_options\<lparr>onChange := Some f\<rparr>) [SetValue ''b'', UndoCmd] (useUndoRedo ''a'')) = ''a''"
proof (intro conjI)
  show "notified (run (default_options\<lparr>onChange := Some f\<rparr>)
      [SetValue ''b'', UndoCmd, RedoCmd] (useUndoRedo ''a'')) = []"
    by (simp only: notified_run) (simp add: useUndoRedo_def)
  show "hvalue (run (default_options\<lparr>onChange := Some f\<rparr>) [SetValue ''b''] (useUndoRedo ''a'')) = ''b''"
    by simp
  show "hvalue (run (default_options\<lparr>onChange := Some f\<rparr>) [SetValue ''b'', UndoCmd] (useUndoRedo ''a'')) = ''a''"
    by (simp add: useUndoRedo_def setValue_def undo_def onChangeCallback_def Let_def
        slice_from_def rel_index_def maxHistory_of_def default_options_def)
qed

text \<open>
  C4, as stated: \<open>setValue(newValue)\<close> with \<open>newValue\<close> equal to the current value
  changes nothing. It fails for the redo stack: after \<open>setValue('b')\<close> and \<open>undo()\<close> from
  \<open>a\<close> the value is \<open>a\<close> and the redo stack holds \<open>b\<close>; \<open>setValue('a')\<close> empties it.
\<close>

theorem setValue_same_value_clears_redoStack:
  "hvalue (run default_options [SetValue ''b'', UndoCmd] (useUndoRedo ''a'')) = ''a'' \<and>
   redoStack (run default_options [SetValue ''b'', UndoCmd] (useUndoRedo ''a'')) = [''b''] \<and>
   redoStack (setValue default_options ''a''
     (run default_options [SetValue ''b'', UndoCmd] (useUndoRedo ''a''))) = []"
  by (simp add: maxHistory_of_def default_options_def useUndoRedo_def setValue_def undo_def
      onChangeCallback_def Let_def slice_def slice_from_def rel_index_def)

text \<open>
  C4, amended: for every state, \<open>setValue(newValue)\<close> with \<open>newValue\<close> equal to the
  current value leaves the current value and the undo stack unchanged, and empties the
  redo stack.
\<close>

theorem setValue_same_value:
  "hvalue (setValue opts (hvalue s) s) = hvalue s \<and>
   undoStack (setValue opts (hvalue s) s) = undoStack s \<and>
   redoStack (setValue opts (hvalue s) s) = []"
  by (simp add: undoStack_setValue)

theorem setValue_same_value_witness:
  "hvalue (setValue default_options ''a''
      \<lparr>hvalue = ''a'', undoStack = [''c''], redoStack = [''b''], notified = []\<rparr>) = ''a'' \<and>
   undoStack (setValue default_options ''a''
      \<lparr>hvalue = ''a'', undoStack = [''c''], redoStack = [''b''], notified = []\<rparr>) = [''c''] \<and>
   redoStack (setValue default_options ''a''
      \<lparr>hvalue = ''a'', undoStack = [''c''], redoStack = [''b''], notified = []\<rparr>) = []"
  using setValue_same_value[of default_options
      "\<lparr>hvalue = ''a'', undoStack = [''c''], redoStack = [''b''], notified = []\<rparr>"]
  by simp

text \<open>
  C5, as stated: in every reachable state, \<open>undo()\<close> followed by \<open>redo()\<close> leaves the
  current value as it was. It fails in a reachable state whose undo stack is empty and
  whose redo stack is not: there \<open>undo()\<close> does nothing and \<open>redo()\<close> moves forward.
  (It also fails with \<open>maxHistory\<close> 0, where the cap on the redo stack keeps nothing
  of what \<open>undo()\<close> pushes: the second part.)
\<close>

theorem undo_redo_changes_value_on_empty_undoStack:
  "hvalue (run default_options [SetValue ''b'', UndoCmd] (useUndoRedo ''a'')) = ''a'' \<and>
   hvalue (redo default_options (undo default_options
     (run default_options [SetValue ''b'', UndoCmd] (useUndoRedo ''a'')))) = ''b'' \<and>
   hvalue (run (default_options\<lparr>maxHistory := Some 0\<rparr>) [SetValue ''b''] (useUndoRedo ''a'')) = ''b'' \<and>
   hvalue (redo (default_options\<lparr>maxHistory := Some 0\<rparr>) (undo (default_options\<lparr>maxHistory := Some 0\<rparr>)
     (run (default_options\<lparr>maxHistory := Some 0\<rparr>) [SetValue ''b''] (useUndoRedo ''a'')))) = ''a''"
  by (simp add: maxHistory_of_def default_options_def useUndoRedo_def setValue_def undo_def
      redo_def onChangeCallback_def Let_def slice_def slice_from_def rel_index_def)

text \<open>
  C5, amended: in every state whose undo stack is not empty, of a store whose
  \<open>maxHistory\<close> is at least 1, \<open>undo()\<close> immediately followed by \<open>redo()\<close> leaves the
  current value equal to what it was before the two calls.
\<close>

theorem undo_redo_round_trip:
  "undoStack s \<noteq> [] \<Longrightarrow> 0 < maxHistory_of opts \<Longrightarrow>
   hvalue (redo opts (undo opts s)) = hvalue s"
  by (simp add: undo_def redo_def onChangeCallback_def Let_def slice_zero_pos)

theorem undo_redo_round_trip_witness:
  "undoStack (setValue default_options ''modified'' (useUndoRedo ''initial'')) \<noteq> [] \<and>
   0 < maxHistory_of default_options \<and>
   hvalue (redo default_options (undo default_options
     (setValue default_options ''modified'' (useUndoRedo ''initial'')))) = ''modified''"
proof -
  have h1: "undoStack (setValue default_options ''modified'' (useUndoRedo ''initial'')) \<noteq> []"
    by (simp add: undoStack_setValue useUndoRedo_def slice_from_def rel_index_def
        maxHistory_of_def default_options_def)
  have h2: "0 < maxHistory_of default_options"
    by (simp add: maxHistory_of_def default_options_def)
  from undo_redo_round_trip[OF h1 h2] h1 h2 show ?thesis by simp
qed

text \<open>
  C7: the undo stack should never hold more than \<open>maxHistory\<close> entries. With
  \<open>maxHistory\<close> 0 the cap \<open>slice(-maxHistory)\<close> is \<open>slice(0)\<close>, which keeps the whole
  array: one edit from \<open>a\<close> leaves one entry in the undo stack, more than the bound 0.
  (For a \<open>maxHistory\<close> of at least 1 the bound holds: \<open>undoStack_reachable_bounded\<close>.)
\<close>

theorem undoStack_exceeds_maxHistory_zero:
  "maxHistory_of (default_options\<lparr>maxHistory := Some 0\<rparr>) = 0 \<and>
   undoStack (run (default_options\<lparr>maxHistory := Some 0\<rparr>) [SetValue ''b''] (useUndoRedo ''a'')) = [''a''] \<and>
   redoStack (run (default_options\<lparr>maxHistory := Some 0\<rparr>) [SetValue ''b'', UndoCmd] (useUndoRedo ''a'')) = []"
  by (simp add: maxHistory_of_def default_options_def useUndoRedo_def setValue_def undo_def
      onChangeCallback_def Let_def slice_def slice_from_def rel_index_def)

section \<open>Properties of the string utilities\<close>

subsection \<open>Trimming and \<open>insertOperator\<close>\<close>

lemma trimEnd_decomp: "\<exists>ws. s = trimEnd s @ ws \<and> (\<forall>c\<in>set ws. is_space c)"
proof -
  have "rev s = takeWhile is_space (rev s) @ dropWhile is_space (rev s)" by simp
  then have "s = rev (dropWhile is_space (rev s)) @ rev (takeWhile is_space (rev s))"
    by (metis rev_append rev_rev_ident)
  moreover have "\<forall>c\<in>set (rev (takeWhile is_space (rev s))). is_space c"
    by (auto dest: set_takeWhileD)
  ultimately show ?thesis unfolding trimEnd_def by blast
qed

lemma trimEnd_last: "trimEnd s \<noteq> [] \<Longrightarrow> \<not> is_space (last (trimEnd s))"
  unfolding trimEnd_def
  by (metis hd_dropWhile last_rev rev_is_Nil_conv)

lemma trimStart_decomp: "\<exists>ws. s = ws @ trimStart s \<and> (\<forall>c\<in>set ws. is_space c)"
proof -
  have "s = takeWhile is_space s @ dropWhile is_space s" by simp
  moreover have "\<forall>c\<in>set (takeWhile is_space s). is_space c"
    by (auto dest: set_takeWhileD)
  ultimately show ?thesis unfolding trimStart_def by blast
qed

lemma trimStart_hd: "trimStart s \<noteq> [] \<Longrightarrow> \<not> is_space (hd (trimStart s))"
  unfolding trimStart_def by (rule hd_dropWhile)

lemma slice_butlast: "xs \<noteq> [] \<Longrightarrow> slice xs 0 (- 1) = butlast xs"
  by (cases xs rule: rev_cases) (auto simp: slice_def rel_index_def Let_def)

lemma ends_with_operator_iff: "ends_with_operator s = (s \<noteq> [] \<and> is_arith_operator (last s))"
  by (cases s rule: rev_cases) (simp_all add: ends_with_operator_def)

lemma insertOperator_replace:
  assumes "trimEnd (slice e 0 pos) \<noteq> []" "is_arith_operator (last (trimEnd (slice e 0 pos)))"
  shows "insertOperator e op pos =
    \<lparr>expression = butlast (trimEnd (slice e 0 pos)) @ '' '' @ op @ '' '' @ trimStart (slice_from e pos),
     cursorPos = int (length (butlast (trimEnd (slice e 0 pos)) @ '' '' @ op @ '' ''))\<rparr>"
  using assms by (simp add: insertOperator_def Let_def ends_with_operator_iff slice_butlast)

lemma insertOperator_insert:
  assumes "trimEnd (slice e 0 pos) = [] \<or> \<not> is_arith_operator (last (trimEnd (slice e 0 pos)))"
  shows "insertOperator e op pos =
    \<lparr>expression = trimEnd (slice e 0 pos) @ '' '' @ op @ '' '' @ trimStart (slice_from e pos),
     cursorPos = int (length (trimEnd (slice e 0 pos) @ '' '' @ op @ '' ''))\<rparr>"
  using assms by (auto simp add: insertOperator_def Let_def ends_with_operator_iff)

lemma insertOperator_scenario:
  "insertOperator ''5'' ''+'' 1 = \<lparr>expression = ''5 + '', cursorPos = 4\<rparr>"
  by (simp add: insertOperator_def Let_def ends_with_operator_def slice_def slice_from_def rel_index_def
      trimEnd_def trimStart_def is_space_def is_arith_operator_def)

subsection \<open>The two parenthesis searches\<close>

lemma prefix_balance_Suc:
  "n < length s \<Longrightarrow> prefix_balance s (Suc n) = prefix_balance s n + paren_delta (s ! n)"
  by (simp add: prefix_balance_def take_Suc_conv_app_nth)

lemma find_close_loop_step:
  "i < length s \<Longrightarrow>
   find_close_loop s i d =
     (if d + paren_delta (s ! i) = 0 then int i
      else find_close_loop s (Suc i) (d + paren_delta (s ! i)))"
  by (subst find_close_loop.simps) (simp add: paren_delta_def Let_def)

lemma find_close_loop_end: "\<not> i < length s \<Longrightarrow> find_close_loop s i d = - 1"
  by (subst find_close_loop.simps) simp

lemma find_close_loop_found:
  "find_close_loop s i d \<noteq> - 1 \<Longrightarrow> 0 < d \<Longrightarrow>
   \<exists>k. find_close_loop s i d = int k \<and> i \<le> k \<and> k < length s \<and>
       d + prefix_balance s (Suc k) - prefix_balance s i = 0 \<and>
       (\<forall>m. i \<le> m \<and> m \<le> k \<longrightarrow> 0 < d + prefix_balance s m - prefix_balance s i)"
proof (induction s i d rule: find_close_loop.induct)
  case (1 s i d)
  from "1.prems"(1) have i: "i < length s"
    using find_close_loop_end by blast
  let ?d2 = "d + paren_delta (s ! i)"
  show ?case
  proof (cases "?d2 = 0")
    case True
    then have "find_close_loop s i d = int i" using i by (simp add: find_close_loop_step)
    moreover have "d + prefix_balance s (Suc i) - prefix_balance s i = 0"
      using True i by (simp add: prefix_balance_Suc)
    moreover have "\<forall>m. i \<le> m \<and> m \<le> i \<longrightarrow> 0 < d + prefix_balance s m - prefix_balance s i"
      using "1.prems"(2) by (auto simp: le_antisym)
    ultimately show ?thesis using i by blast
  next
    case False
    have step: "find_close_loop s i d = find_close_loop s (Suc i) ?d2"
      using False i by (simp add: find_close_loop_step)
    have pos: "0 < ?d2" using False "1.prems"(2) by (auto simp: paren_delta_def split: if_splits)
    have ne: "find_close_loop s (i + 1) ?d2 \<noteq> - 1" using "1.prems"(1) step by simp
    have d2': "(if s ! i = CHR '')'' then (if s ! i = CHR ''('' then d + 1 else d) - 1
                else (if s ! i = CHR ''('' then d + 1 else d)) = ?d2"
      by (simp add: paren_delta_def)
    have "\<exists>k. find_close_loop s (i + 1) ?d2 = int k \<and> i + 1 \<le> k \<and> k < length s \<and>
       ?d2 + prefix_balance s (Suc k) - prefix_balance s (i + 1) = 0 \<and>
       (\<forall>m. i + 1 \<le> m \<and> m \<le> k \<longrightarrow> 0 < ?d2 + prefix_balance s m - prefix_balance s (i + 1))"
      using "1.IH"[OF i refl refl, unfolded d2', OF False ne pos] .
    then obtain k where k: "find_close_loop s (Suc i) ?d2 = int k" "Suc i \<le> k" "k < length s"
       "?d2 + prefix_balance s (Suc k) - prefix_balance s (Suc i) = 0"
       "\<forall>m. Suc i \<le> m \<and> m \<le> k \<longrightarrow> 0 < ?d2 + prefix_balance s m - prefix_balance s (Suc i)"
      by auto
    have "d + prefix_balance s (Suc k) - prefix_balance s i = 0"
      using k(4) i by (simp add: prefix_balance_Suc)
    moreover have "\<forall>m. i \<le> m \<and> m \<le> k \<longrightarrow> 0 < d + prefix_balance s m - prefix_balance s i"
    proof (intro allI impI)
      fix m assume m: "i \<le> m \<and> m \<le> k"
      show "0 < d + prefix_balance s m - prefix_balance s i"
      proof (cases "m = i")
        case True
        then show ?thesis using "1.prems"(2) by simp
      next
        case False
        then have "Suc i \<le> m \<and> m \<le> k" using m by simp
        then have "0 < ?d2 + prefix_balance s m - prefix_balance s (Suc i)" using k(5) by blast
        then show ?thesis using i by (simp add: prefix_balance_Suc)
      qed
    qed
    ultimately show ?thesis using step k(1,2,3) by auto
  qed
qed

lemma find_open_loop_step:
  "0 \<le> i \<Longrightarrow> i < int (length s) \<Longrightarrow>
   find_open_loop s i d =
     (if d - paren_delta (s ! nat i) = 0 then i
      else find_open_loop s (i - 1) (d - paren_delta (s ! nat i)))"
  by (subst find_open_loop.simps) (simp add: paren_delta_def Let_def char_at_def)

lemma find_open_loop_found:
  "p \<le> n \<Longrightarrow> n < length s \<Longrightarrow>
   d - (prefix_balance s (Suc n) - prefix_balance s p) = 0 \<Longrightarrow>
   (\<forall>m. p < m \<and> m \<le> n \<longrightarrow> d - (prefix_balance s (Suc n) - prefix_balance s m) \<noteq> 0) \<Longrightarrow>
   find_open_loop s (int n) d = int p"
proof (induction "n - p" arbitrary: n d)
  case 0
  then have np: "n = p" by simp
  have "d - paren_delta (s ! n) = 0"
    using "0.prems"(2,3) np by (simp add: prefix_balance_Suc)
  then show ?case using find_open_loop_step[of "int n" s d] "0.prems"(2) np by simp
next
  case (Suc x)
  then have pn: "p < n" by simp
  then obtain n' where n': "n = Suc n'" by (cases n) auto
  let ?d2 = "d - paren_delta (s ! n)"
  have "d - (prefix_balance s (Suc n) - prefix_balance s n) \<noteq> 0"
    using Suc.prems(4) pn by blast
  then have nz: "?d2 \<noteq> 0" using Suc.prems(2) by (simp add: prefix_balance_Suc)
  have "find_open_loop s (int n) d = find_open_loop s (int n - 1) ?d2"
    using find_open_loop_step[of "int n" s d] nz Suc.prems(2) by simp
  moreover have "int n - 1 = int n'" using n' by simp
  ultimately have step: "find_open_loop s (int n) d = find_open_loop s (int n') ?d2"
    by simp
  have "find_open_loop s (int n') ?d2 = int p"
  proof (rule Suc.hyps(1))
    show "x = n' - p" using Suc.hyps(2) n' by simp
    show "p \<le> n'" using pn n' by simp
    show "n' < length s" using Suc.prems(2) n' by simp
    show "?d2 - (prefix_balance s (Suc n') - prefix_balance s p) = 0"
      using Suc.prems(2,3) n' by (simp add: prefix_balance_Suc)
    show "\<forall>m. p < m \<and> m \<le> n' \<longrightarrow> ?d2 - (prefix_balance s (Suc n') - prefix_balance s m) \<noteq> 0"
    proof (intro allI impI)
      fix m assume "p < m \<and> m \<le> n'"
      then have "p < m \<and> m \<le> n" using n' by simp
      then have "d - (prefix_balance s (Suc n) - prefix_balance s m) \<noteq> 0" using Suc.prems(4) by blast
      then show "?d2 - (prefix_balance s (Suc n') - prefix_balance s m) \<noteq> 0"
        using Suc.prems(2) n' by (simp add: prefix_balance_Suc)
    qed
  qed
  then show ?case using step by simp
qed

lemma matching_paren_inverse:
  assumes "char_at s openPos = Some CHR ''(''" "findMatchingParen s openPos \<noteq> - 1"
  shows "findMatchingOpenParen s (findMatchingParen s openPos) = openPos"
proof -
  from assms(1) have range: "0 \<le> openPos" "openPos < int (length s)"
    by (auto simp: char_at_def split: if_splits)
  define p where "p = nat openPos"
  have p: "openPos = int p" "p < length s" using range by (auto simp: p_def)
  have sp: "s ! p = CHR ''(''" using assms(1) p by (simp add: char_at_def)
  have fm: "findMatchingParen s openPos = find_close_loop s (Suc p) 1"
    using assms(1) p by (simp add: findMatchingParen_def nat_add_distrib)
  then have "find_close_loop s (Suc p) 1 \<noteq> - 1" using assms(2) by simp
  from find_close_loop_found[OF this]
  obtain k where k: "find_close_loop s (Suc p) 1 = int k" "Suc p \<le> k" "k < length s"
     "1 + prefix_balance s (Suc k) - prefix_balance s (Suc p) = 0"
     "\<forall>m. Suc p \<le> m \<and> m \<le> k \<longrightarrow> 0 < 1 + prefix_balance s m - prefix_balance s (Suc p)"
    by auto
  have "0 < 1 + prefix_balance s k - prefix_balance s (Suc p)" using k(2,5) by blast
  with k(3,4) have dk: "paren_delta (s ! k) < 0" by (simp add: prefix_balance_Suc)
  then have sk: "s ! k = CHR '')''" by (auto simp: paren_delta_def split: if_splits)
  then have dk1: "paren_delta (s ! k) = - 1" by (simp add: paren_delta_def)
  have Pk: "prefix_balance s k = prefix_balance s (Suc p)"
    using k(3,4) dk1 by (simp add: prefix_balance_Suc)
  obtain n where n: "k = Suc n" using k(2) by (cases k) auto
  have "findMatchingOpenParen s (int k) = find_open_loop s (int k - 1) 1"
    using sk k(3) by (simp add: findMatchingOpenParen_def char_at_def)
  moreover have "int k - 1 = int n" using n by simp
  ultimately have fo: "findMatchingOpenParen s (int k) = find_open_loop s (int n) 1"
    by simp
  have "find_open_loop s (int n) 1 = int p"
  proof (rule find_open_loop_found)
    show "p \<le> n" using k(2) n by simp
    show "n < length s" using k(3) n by simp
    show "1 - (prefix_balance s (Suc n) - prefix_balance s p) = 0"
      using Pk n p(2) sp by (simp add: prefix_balance_Suc paren_delta_def)
    show "\<forall>m. p < m \<and> m \<le> n \<longrightarrow> 1 - (prefix_balance s (Suc n) - prefix_balance s m) \<noteq> 0"
    proof (intro allI impI)
      fix m assume "p < m \<and> m \<le> n"
      then have "Suc p \<le> m \<and> m \<le> k" using n by simp
      then have "0 < 1 + prefix_balance s m - prefix_balance s (Suc p)" using k(5) by blast
      then show "1 - (prefix_balance s (Suc n) - prefix_balance s m) \<noteq> 0"
        using Pk n by simp
    qed
  qed
  then show ?thesis using fm k(1) fo p(1) by simp
qed

subsection \<open>\<open>formatExpression\<close> on tokens\<close>

lemma is_space_space [simp]: "is_space CHR '' ''"
  by (simp add: is_space_def)

lemma not_space_parens [simp]: "\<not> is_space CHR ''(''" "\<not> is_space CHR '')''"
  by (simp_all add: is_space_def)

lemma operator_not_space: "is_arith_operator c \<Longrightarrow> \<not> is_space c"
  by (auto simp: is_arith_operator_def is_space_def)

lemma tokens_ok_map_flags [simp]: "tokens_ok (map_flags g p ts) = tokens_ok ts"
  by (induction ts arbitrary: p) auto

lemma map_flags_map_flags: "map_flags g p (map_flags h p ts) = map_flags (\<lambda>p b c. g p (h p b c) c) p ts"
  by (induction ts arbitrary: p) auto

lemma formatted_text_cong:
  "(\<And>q b c. gap_before (Some q) (g (Some q) b c) c = gap_before (Some q) (h (Some q) b c) c) \<Longrightarrow>
   formatted_text p (map_flags g p ts) = formatted_text p (map_flags h p ts)"
  by (induction ts arbitrary: p) auto

lemma tokens_text_eq_Nil: "tokens_text ts tr = [] \<longleftrightarrow> ts = [] \<and> \<not> tr"
  by (cases ts) auto

lemma collapse_spaces_Nil_iff: "collapse_spaces s = [] \<longleftrightarrow> s = []"
  by (cases s) auto

lemma collapse_spaces_hd: "s \<noteq> [] \<Longrightarrow> is_space (hd (collapse_spaces s)) = is_space (hd s)"
  by (cases s) auto

lemma dropWhile_hd_not_space: "dropWhile is_space cs \<noteq> [] \<Longrightarrow> \<not> is_space (hd (dropWhile is_space cs))"
  by (rule hd_dropWhile)

lemma collapse_spaces_tokens: "\<exists>ts tr. tokens_ok ts \<and> collapse_spaces s = tokens_text ts tr"
proof (induction s rule: collapse_spaces.induct)
  case 1
  have "tokens_ok [] \<and> collapse_spaces [] = tokens_text [] False" by simp
  then show ?case by blast
next
  case (2 c cs)
  show ?case
  proof (cases "is_space c")
    case True
    let ?X = "dropWhile is_space cs"
    from 2(1)[OF True] obtain ts tr where t: "tokens_ok ts" "collapse_spaces ?X = tokens_text ts tr" by blast
    have A: "collapse_spaces (c # cs) = CHR '' '' # tokens_text ts tr" using True t by simp
    show ?thesis
    proof (cases ts)
      case Nil
      have "\<not> tr"
      proof
        assume tr
        then have cx: "collapse_spaces ?X = '' ''" using t(2) Nil by simp
        then have "?X \<noteq> []" using collapse_spaces_Nil_iff[of ?X] by simp
        then have "\<not> is_space (hd ?X)" by (rule dropWhile_hd_not_space)
        moreover have "is_space (hd (collapse_spaces ?X)) = is_space (hd ?X)"
          using \<open>?X \<noteq> []\<close> by (rule collapse_spaces_hd)
        ultimately show False using cx by simp
      qed
      then have "tokens_ok [] \<and> collapse_spaces (c # cs) = tokens_text [] True" using A Nil by simp
      then show ?thesis by blast
    next
      case (Cons t ts')
      obtain b d where bd: "t = (b, d)" by (cases t)
      have "\<not> b"
      proof
        assume b
        then have cx: "hd (collapse_spaces ?X) = CHR '' ''" using t(2) Cons bd by simp
        have "collapse_spaces ?X \<noteq> []" using t(2) Cons bd by simp
        then have ne: "?X \<noteq> []" by (simp add: collapse_spaces_Nil_iff)
        then have "\<not> is_space (hd ?X)" by (rule dropWhile_hd_not_space)
        moreover have "is_space (hd (collapse_spaces ?X)) = is_space (hd ?X)"
          using ne by (rule collapse_spaces_hd)
        ultimately show False using cx by simp
      qed
      then have "tokens_ok ((True, d) # ts') \<and> collapse_spaces (c # cs) = tokens_text ((True, d) # ts') tr"
        using A Cons bd t(1) by simp
      then show ?thesis by blast
    qed
  next
    case False
    from 2(2)[OF False] obtain ts tr where t: "tokens_ok ts" "collapse_spaces cs = tokens_text ts tr" by blast
    have "tokens_ok ((False, c) # ts) \<and> collapse_spaces (c # cs) = tokens_text ((False, c) # ts) tr"
      using False t by simp
    then show ?thesis by blast
  qed
qed

lemma strip_after_open_space [simp]:
  "strip_after_open (CHR '' '' # xs) = CHR '' '' # strip_after_open xs"
  by simp

lemma dropWhile_tokens_text_Cons:
  "\<not> is_space c \<Longrightarrow> dropWhile is_space (tokens_text ((b, c) # ts) tr) = c # tokens_text ts tr"
  by simp

lemma strip_after_open_tokens:
  "tokens_ok ts \<Longrightarrow>
   \<exists>tr'. strip_after_open (if p = Some CHR ''('' then dropWhile is_space (tokens_text ts tr) else tokens_text ts tr) =
          tokens_text (map_flags flag_after_open p ts) tr'"
proof (induction ts arbitrary: p)
  case Nil
  have "strip_after_open (if p = Some CHR ''('' then dropWhile is_space (tokens_text [] tr) else tokens_text [] tr) =
        tokens_text (map_flags flag_after_open p []) (tr \<and> p \<noteq> Some CHR ''('')"
    by simp
  then show ?case by blast
next
  case (Cons t ts)
  obtain b c where bc: "t = (b, c)" by (cases t)
  from Cons.prems bc have c: "\<not> is_space c" and v: "tokens_ok ts" by auto
  from Cons.IH[OF v, of "Some c"] obtain tr' where
    ih: "strip_after_open (if Some c = Some CHR ''('' then dropWhile is_space (tokens_text ts tr) else tokens_text ts tr) =
         tokens_text (map_flags flag_after_open (Some c) ts) tr'" by blast
  have tail: "strip_after_open (c # tokens_text ts tr) = c # tokens_text (map_flags flag_after_open (Some c) ts) tr'"
    using ih by (cases "c = CHR ''(''") auto
  have "strip_after_open (if p = Some CHR ''('' then dropWhile is_space (tokens_text (t # ts) tr) else tokens_text (t # ts) tr) =
        tokens_text (map_flags flag_after_open p (t # ts)) tr'"
    using c tail by (simp add: bc flag_after_open_def)
  then show ?case by blast
qed

lemma strip_before_close_tokens:
  "tokens_ok ts \<Longrightarrow> strip_before_close (tokens_text ts tr) = tokens_text (map_flags flag_before_close p ts) tr"
proof (induction ts arbitrary: p)
  case Nil
  show ?case by simp
next
  case (Cons t ts)
  obtain b c where bc: "t = (b, c)" by (cases t)
  from Cons.prems bc have c: "\<not> is_space c" and v: "tokens_ok ts" by auto
  have tail: "strip_before_close (c # tokens_text ts tr) = c # tokens_text (map_flags flag_before_close (Some c) ts) tr"
    using c Cons.IH[OF v] by simp
  have g: "flag_before_close p b c = (b \<and> c \<noteq> CHR '')'')" by (simp add: flag_before_close_def)
  show ?case using c tail g by (simp add: bc)
qed

lemma space_operators_tokens:
  "tokens_ok ts \<Longrightarrow>
   spaced_text p ts tr =
     (if after_operator p then CHR '' '' # space_operators (dropWhile is_space (tokens_text ts tr))
      else space_operators (tokens_text ts tr))"
proof (induction ts arbitrary: p)
  case Nil
  show ?case by simp
next
  case (Cons t ts)
  obtain b c where bc: "t = (b, c)" by (cases t)
  from Cons.prems bc have c: "\<not> is_space c" and v: "tokens_ok ts" by auto
  have ih: "spaced_text (Some c) ts tr =
      (if is_arith_operator c then CHR '' '' # space_operators (dropWhile is_space (tokens_text ts tr))
       else space_operators (tokens_text ts tr))"
    using Cons.IH[OF v, of "Some c"] by (simp add: after_operator_def)
  have dw: "dropWhile is_space (c # tokens_text ts tr) = c # tokens_text ts tr" using c by simp
  have tail: "space_operators (c # tokens_text ts tr) =
      (if is_arith_operator c then CHR '' '' # c # spaced_text (Some c) ts tr else c # spaced_text (Some c) ts tr)"
    by (simp only: space_operators.simps dw list.case ih split: if_split) simp
  have tail2: "space_operators (CHR '' '' # c # tokens_text ts tr) =
      (if is_arith_operator c then CHR '' '' # c # spaced_text (Some c) ts tr
       else CHR '' '' # c # spaced_text (Some c) ts tr)"
  proof -
    have "dropWhile is_space (CHR '' '' # c # tokens_text ts tr) = c # tokens_text ts tr" using c by simp
    then have "space_operators (CHR '' '' # c # tokens_text ts tr) =
      (if is_arith_operator c
       then CHR '' '' # c # CHR '' '' # space_operators (dropWhile is_space (tokens_text ts tr))
       else CHR '' '' # space_operators (c # tokens_text ts tr))"
      by (simp only: space_operators.simps list.case)
    then show ?thesis by (simp only: tail ih split: if_split) simp
  qed
  have cc: "tokens_text (t # ts) tr = (if b then CHR '' '' # c # tokens_text ts tr else c # tokens_text ts tr)"
    by (simp add: bc)
  have dd: "dropWhile is_space (tokens_text (t # ts) tr) = c # tokens_text ts tr"
    using c by (simp add: bc)
  have ds: "spaced_text p (t # ts) tr = gap_before p b c @ c # spaced_text (Some c) ts tr"
    by (simp add: bc)
  show ?case
  proof (cases "after_operator p")
    case True
    have "spaced_text p (t # ts) tr = CHR '' '' # space_operators (c # tokens_text ts tr)"
      by (cases "is_arith_operator c")
         (simp_all only: ds gap_before_def tail True if_True if_False simp_thms append.simps)
    then show ?thesis using True by (simp only: dd if_True)
  next
    case False
    have "spaced_text p (t # ts) tr = space_operators (tokens_text (t # ts) tr)"
      by (cases b; cases "is_arith_operator c")
         (simp_all only: ds gap_before_def cc tail tail2 False if_True if_False simp_thms append.simps)
    then show ?thesis using False by (simp only: if_False)
  qed
qed

lemma trimEnd_append_nonspace: "\<not> is_space d \<Longrightarrow> trimEnd (xs @ [d]) = xs @ [d]"
  by (simp add: trimEnd_def)

lemma trimEnd_append_nonspace_space: "\<not> is_space d \<Longrightarrow> trimEnd (xs @ [d, CHR '' '']) = xs @ [d]"
  by (simp add: trimEnd_def)

lemma trimEnd_spaced_text:
  "tokens_ok ts \<Longrightarrow> \<not> is_space c \<Longrightarrow>
   trimEnd (pre @ c # spaced_text (Some c) ts tr) = pre @ c # formatted_text (Some c) ts"
proof (induction ts arbitrary: pre c)
  case Nil
  then show ?case
    using trimEnd_append_nonspace[of c pre] trimEnd_append_nonspace_space[of c pre] by simp
next
  case (Cons t ts)
  obtain b d where bd: "t = (b, d)" by (cases t)
  from Cons.prems bd have d: "\<not> is_space d" and v: "tokens_ok ts" by auto
  have "trimEnd ((pre @ c # gap_before (Some c) b d) @ d # spaced_text (Some d) ts tr) =
        (pre @ c # gap_before (Some c) b d) @ d # formatted_text (Some d) ts"
    by (rule Cons.IH[OF v d])
  then show ?case by (simp add: bd)
qed

lemma trim_spaced_text: "tokens_ok ts \<Longrightarrow> trim (spaced_text None ts tr) = formatted_text None ts"
proof (cases ts)
  case Nil
  then show ?thesis by (simp add: trim_def trimStart_def trimEnd_def after_operator_def)
next
  case (Cons t ts')
  assume v: "tokens_ok ts"
  obtain b c where bc: "t = (b, c)" by (cases t)
  from v Cons bc have c: "\<not> is_space c" and v': "tokens_ok ts'" by auto
  have "trimStart (spaced_text None ts tr) = c # spaced_text (Some c) ts' tr"
    using c by (simp add: Cons bc trimStart_def gap_before_def after_operator_def)
  then have "trim (spaced_text None ts tr) = trimEnd ([] @ c # spaced_text (Some c) ts' tr)"
    by (simp add: trim_def)
  also have "\<dots> = [] @ c # formatted_text (Some c) ts'" using v' c by (rule trimEnd_spaced_text)
  finally show ?thesis by (simp add: Cons bc)
qed

lemma collapse_spaces_gap_before:
  "\<not> is_space c \<Longrightarrow>
   collapse_spaces (gap_before p b c @ c # xs) =
     (if gap_before p b c \<noteq> [] then '' '' else []) @ c # collapse_spaces xs"
  by (simp add: gap_before_def)

lemma collapse_spaces_formatted_text:
  "tokens_ok ts \<Longrightarrow> collapse_spaces (formatted_text p ts) = tokens_text (map_flags flag_in_output p ts) False"
proof (induction ts arbitrary: p)
  case Nil
  show ?case by simp
next
  case (Cons t ts)
  obtain b c where bc: "t = (b, c)" by (cases t)
  from Cons.prems bc have c: "\<not> is_space c" and v: "tokens_ok ts" by auto
  show ?case
    using c Cons.IH[OF v, of "Some c"] collapse_spaces_gap_before[OF c, of p b "formatted_text (Some c) ts"]
    by (simp add: bc flag_in_output_def)
qed

lemma format_tokens:
  assumes "tokens_ok ts"
  shows "trim (space_operators (strip_before_close (strip_after_open (tokens_text ts tr)))) =
         formatted_text None (map_flags flag_before_close None (map_flags flag_after_open None ts))"
proof -
  from strip_after_open_tokens[OF assms, of None tr] obtain tr' where
    b: "strip_after_open (tokens_text ts tr) = tokens_text (map_flags flag_after_open None ts) tr'" by auto
  have c: "strip_before_close (tokens_text (map_flags flag_after_open None ts) tr') = tokens_text (map_flags flag_before_close None (map_flags flag_after_open None ts)) tr'"
    using assms by (simp add: strip_before_close_tokens)
  have d: "space_operators (tokens_text (map_flags flag_before_close None (map_flags flag_after_open None ts)) tr') =
           spaced_text None (map_flags flag_before_close None (map_flags flag_after_open None ts)) tr'"
    using assms space_operators_tokens[of "map_flags flag_before_close None (map_flags flag_after_open None ts)" None tr']
    by (simp add: after_operator_def)
  show ?thesis using assms by (simp add: b c d trim_spaced_text)
qed

text \<open>
  C9: \<open>formatExpression\<close> is idempotent: for every string \<open>s\<close>,
  \<open>formatExpression(formatExpression(s))\<close> equals \<open>formatExpression(s)\<close>.
\<close>

theorem formatExpression_idempotent: "formatExpression (formatExpression s) = formatExpression s"
proof -
  obtain ts tr where t: "tokens_ok ts" "collapse_spaces s = tokens_text ts tr"
    using collapse_spaces_tokens by blast
  let ?t1 = "map_flags flag_before_close None (map_flags flag_after_open None ts)"
  have f1: "formatExpression s = formatted_text None ?t1"
    using format_tokens[OF t(1)] by (simp add: formatExpression_def t(2))
  have v1: "tokens_ok ?t1" using t(1) by simp
  have a2: "collapse_spaces (formatted_text None ?t1) = tokens_text (map_flags flag_in_output None ?t1) False"
    using v1 by (rule collapse_spaces_formatted_text)
  have v2: "tokens_ok (map_flags flag_in_output None ?t1)" using v1 by simp
  have f2: "formatExpression (formatted_text None ?t1) = formatted_text None (map_flags flag_before_close None (map_flags flag_after_open None (map_flags flag_in_output None ?t1)))"
    using format_tokens[OF v2] by (simp add: formatExpression_def a2)
  have "formatted_text None (map_flags flag_before_close None (map_flags flag_after_open None (map_flags flag_in_output None ?t1))) = formatted_text None ?t1"
    unfolding map_flags_map_flags
    by (rule formatted_text_cong) (auto simp: flag_after_open_def flag_before_close_def flag_in_output_def gap_before_def after_operator_def)
  then show ?thesis using f1 f2 by simp
qed

subsection \<open>Claims about \<open>insertOperator\<close> and the parenthesis searches\<close>

text \<open>
  What \<open>insertOperator\<close> does for the class \<open>+ - * /\<close> that it tests: it trims the
  trailing white space of the prefix (the text before the cursor) and the leading white
  space of the suffix; if the trimmed prefix ends in one of \<open>+ - * /\<close> that character is
  dropped and the new operator takes its place, otherwise the operator is added after
  the trimmed prefix, in both cases with one space before and one after it, followed by
  the trimmed suffix; the cursor position returned is the length of the text up to and
  including the space after the operator.
\<close>

lemma insertOperator_spacing:
  "(\<exists>ws. slice e 0 pos = trimEnd (slice e 0 pos) @ ws \<and> (\<forall>c\<in>set ws. is_space c)) \<and>
   (trimEnd (slice e 0 pos) \<noteq> [] \<longrightarrow> \<not> is_space (last (trimEnd (slice e 0 pos)))) \<and>
   (\<exists>ws. slice_from e pos = ws @ trimStart (slice_from e pos) \<and> (\<forall>c\<in>set ws. is_space c)) \<and>
   (trimStart (slice_from e pos) \<noteq> [] \<longrightarrow> \<not> is_space (hd (trimStart (slice_from e pos)))) \<and>
   (trimEnd (slice e 0 pos) \<noteq> [] \<and> is_arith_operator (last (trimEnd (slice e 0 pos))) \<longrightarrow>
      insertOperator e op pos =
        \<lparr>expression = butlast (trimEnd (slice e 0 pos)) @ '' '' @ op @ '' '' @
                        trimStart (slice_from e pos),
         cursorPos = int (length (butlast (trimEnd (slice e 0 pos)) @ '' '' @ op @ '' ''))\<rparr>) \<and>
   (\<not> (trimEnd (slice e 0 pos) \<noteq> [] \<and> is_arith_operator (last (trimEnd (slice e 0 pos)))) \<longrightarrow>
      insertOperator e op pos =
        \<lparr>expression = trimEnd (slice e 0 pos) @ '' '' @ op @ '' '' @ trimStart (slice_from e pos),
         cursorPos = int (length (trimEnd (slice e 0 pos) @ '' '' @ op @ '' ''))\<rparr>)"
  using trimEnd_decomp[of "slice e 0 pos"] trimEnd_last[of "slice e 0 pos"]
    trimStart_decomp[of "slice_from e pos"] trimStart_hd[of "slice_from e pos"]
    insertOperator_replace[of e pos op] insertOperator_insert[of e pos op]
  by blast

text \<open>
  C8: \<open>insertOperator\<close> should replace, not stack, an operator character at the end of
  the trimmed prefix. The operator characters are those of \<open>isOperator\<close>,
  \<open>+ - * / ^ %\<close>, and the editor's key handler passes \<open>^\<close> to \<open>insertOperator\<close> as an
  operator; the function's own test is the class \<open>+ - * /\<close>. So after \<open>^\<close> (and \<open>%\<close>)
  the new operator is stacked: typing \<open>^\<close> after \<open>2\<close> gives \<open>2 ^ \<close>, and typing \<open>+\<close> then
  gives \<open>2 ^ + \<close>; \<open>insertOperator('2^', '+', 2)\<close> is \<open>2^ + \<close>. After \<open>*\<close> the operator is
  replaced, and \<open>insertOperator('5', '+', 1)\<close> is \<open>{expression: '5 + ', cursorPos: 4}\<close>.
\<close>

theorem insertOperator_stacks_after_caret:
  "isOperator ''^'' \<and> isOperator ''%'' \<and>
   insertOperator ''2'' ''^'' 1 = \<lparr>expression = ''2 ^ '', cursorPos = 4\<rparr> \<and>
   insertOperator ''2 ^ '' ''+'' 4 = \<lparr>expression = ''2 ^ + '', cursorPos = 6\<rparr> \<and>
   insertOperator ''2^'' ''+'' 2 = \<lparr>expression = ''2^ + '', cursorPos = 5\<rparr> \<and>
   insertOperator ''2%'' ''+'' 2 = \<lparr>expression = ''2% + '', cursorPos = 5\<rparr> \<and>
   insertOperator ''2*'' ''+'' 2 = \<lparr>expression = ''2 + '', cursorPos = 4\<rparr> \<and>
   insertOperator ''5'' ''+'' 1 = \<lparr>expression = ''5 + '', cursorPos = 4\<rparr>"
  by code_simp

text \<open>
  C10: for every string \<open>s\<close> and position \<open>openPos\<close> with \<open>s[openPos]\<close> equal to \<open>(\<close>, if
  \<open>findMatchingParen(s, openPos)\<close> returns an index \<open>j\<close> other than \<open>-1\<close>, then
  \<open>findMatchingOpenParen(s, j)\<close> returns \<open>openPos\<close>.
\<close>

theorem findMatchingOpenParen_inverts_findMatchingParen:
  "char_at s openPos = Some CHR ''('' \<Longrightarrow> findMatchingParen s openPos = j \<Longrightarrow> j \<noteq> - 1 \<Longrightarrow>
   findMatchingOpenParen s j = openPos"
  using matching_paren_inverse[of s openPos] by blast

theorem findMatchingOpenParen_inverts_findMatchingParen_witness:
  "char_at ''(1 + (2))'' 0 = Some CHR ''('' \<and>
   findMatchingParen ''(1 + (2))'' 0 = 8 \<and> (8::int) \<noteq> - 1 \<and>
   findMatchingOpenParen ''(1 + (2))'' 8 = 0"
proof -
  have a: "char_at ''(1 + (2))'' 0 = Some CHR ''(''" by (simp add: char_at_def)
  have b: "findMatchingParen ''(1 + (2))'' 0 = 8" by code_simp
  have c: "(8::int) \<noteq> - 1" by simp
  from findMatchingOpenParen_inverts_findMatchingParen[OF a b c] a b c show ?thesis by blast
qed

section \<open>Properties of the ExpressionEditorController\<close>

lemma validateExpression_open_paren: "\<not> validateExpression ''(''"
  by (simp add: validateExpression_def trim_def trimStart_def trimEnd_def is_space_def)

text \<open>
  C1: for every string \<open>s\<close> that fails the injected validator, \<open>setExpression(s)\<close> sets
  \<open>isValid\<close> to false and leaves the committed expression and the history store (current
  value, undo stack, redo stack) unchanged; nothing else of the controller's state
  changes either.
\<close>

theorem setExpression_rejects_invalid:
  "validator eo = Some v \<Longrightarrow> \<not> v s \<Longrightarrow>
   isValid (setExpression eo now s e) = False \<and>
   editor_expression (setExpression eo now s e) = editor_expression e \<and>
   hvalue (undoRedo (setExpression eo now s e)) = hvalue (undoRedo e) \<and>
   undoStack (undoRedo (setExpression eo now s e)) = undoStack (undoRedo e) \<and>
   redoStack (undoRedo (setExpression eo now s e)) = redoStack (undoRedo e) \<and>
   setExpression eo now s e = e\<lparr>isValid := False\<rparr>"
  by (simp add: setExpression_def editor_expression_def)

theorem setExpression_rejects_invalid_witness:
  "validator (default_editor_options\<lparr>validator := Some validateExpression\<rparr>) = Some validateExpression \<and>
   \<not> validateExpression ''('' \<and>
   isValid (setExpression (default_editor_options\<lparr>validator := Some validateExpression\<rparr>) 1 ''(''
     (useExpressionEditor (default_editor_options\<lparr>validator := Some validateExpression\<rparr>) 0)) = False \<and>
   undoRedo (setExpression (default_editor_options\<lparr>validator := Some validateExpression\<rparr>) 1 ''(''
     (useExpressionEditor (default_editor_options\<lparr>validator := Some validateExpression\<rparr>) 0)) =
     useUndoRedo ''''"
proof -
  let ?eo = "default_editor_options\<lparr>validator := Some validateExpression\<rparr>"
  have a: "validator ?eo = Some validateExpression" by simp
  have b: "\<not> validateExpression ''(''" by (rule validateExpression_open_paren)
  have c: "undoRedo (useExpressionEditor ?eo 0) = useUndoRedo ''''"
    by (simp add: useExpressionEditor_def initialExpression_of_def default_editor_options_def)
  from setExpression_rejects_invalid[OF a b, of 1 "useExpressionEditor ?eo 0"] a b c
  show ?thesis by simp
qed

lemma insertText_accepted_cursor:
  assumes "validator eo = None \<or> (\<exists>v. validator eo = Some v \<and>
             v (slice (editor_expression e) 0 (cursorPosition e) @ text @
                slice_from (editor_expression e) (cursorPosition e)))"
    and "0 \<le> cursorPosition e" "cursorPosition e \<le> int (length (editor_expression e))"
  shows "cursorPosition (insertText eo now text e) \<le>
         int (length (editor_expression (insertText eo now text e)))"
  using assms
  by (auto simp: insertText_def setExpression_def editor_expression_def Let_def slice_def
      slice_from_def rel_index_def)

text \<open>
  C6: after a text mutation through the controller the cursor position should never be
  greater than the length of the current expression, also when the validator rejects the
  mutation. On an empty editor whose validator is \<open>validateExpression\<close>,
  \<open>insertText('(')\<close> is rejected, so the expression stays empty, yet the cursor moves to
  1. Without any validator, \<open>deleteText(5, 7)\<close> on \<open>abc\<close> leaves \<open>abc\<close> and puts the
  cursor at 5. (An accepted \<open>insertText\<close> at a cursor inside the expression does keep
  the cursor inside: \<open>insertText_accepted_cursor\<close>.)
\<close>

theorem cursor_past_end_after_mutation:
  "isValid (insertText (default_editor_options\<lparr>validator := Some validateExpression\<rparr>) now ''(''
     (useExpressionEditor (default_editor_options\<lparr>validator := Some validateExpression\<rparr>) t0)) = False \<and>
   editor_expression (insertText (default_editor_options\<lparr>validator := Some validateExpression\<rparr>) now ''(''
     (useExpressionEditor (default_editor_options\<lparr>validator := Some validateExpression\<rparr>) t0)) = '''' \<and>
   cursorPosition (insertText (default_editor_options\<lparr>validator := Some validateExpression\<rparr>) now ''(''
     (useExpressionEditor (default_editor_options\<lparr>validator := Some validateExpression\<rparr>) t0)) = 1 \<and>
   editor_expression (deleteText default_editor_options now 5 7
     (useExpressionEditor (default_editor_options\<lparr>initialExpression := Some ''abc''\<rparr>) t0)) = ''abc'' \<and>
   cursorPosition (deleteText default_editor_options now 5 7
     (useExpressionEditor (default_editor_options\<lparr>initialExpression := Some ''abc''\<rparr>) t0)) = 5"
  by (simp add: insertText_def deleteText_def setExpression_def validateExpression_open_paren
      useExpressionEditor_def default_editor_options_def initialExpression_of_def
      editor_expression_def useUndoRedo_def slice_def slice_from_def rel_index_def
      setValue_def onChangeCallback_def)

end
